theory Spec2Isabelle
  imports Complex_Main
begin

section \<open>The voice-activated drawer screen of \<open>src/ar-app/App.js\<close>\<close>

text \<open>
  The second module of \<open>App.js\<close> is one React function component, \<open>SideNav\<close>. Its
  \<open>useState\<close> cells are the fields of a record, every handler is a function from the
  state before to the state after, and every call into a platform library (Animated, Voice,
  PermissionsAndroid, Camera, Alert, console) is appended to a trace kept in the state, so
  that "was called", "how often" and "in which order" are statements about a list.
  The answer of an asynchronous platform call is an input of the handler that awaits it.
  A handler runs to its end before the next event is taken: interleavings inside one
  \<open>async\<close> handler are outside this model.
\<close>

subsection \<open>Strings: \<open>toLowerCase\<close> and \<open>includes\<close>\<close>

text \<open>
  A transcript is a \<open>string\<close>. \<open>toLowerCase\<close> maps the letters A to Z to a to z and
  leaves every other character alone. (JavaScript lower-cases beyond ASCII as well; no
  character outside ASCII lower-cases to a letter of the two phrases matched below.)
  \<open>String.prototype.includes\<close> is the search for a contiguous occurrence.
\<close>

definition toLowerCase_char :: "char \<Rightarrow> char" where
  "toLowerCase_char c =
     (case map_of (zip ''ABCDEFGHIJKLMNOPQRSTUVWXYZ'' ''abcdefghijklmnopqrstuvwxyz'') c of
        Some l \<Rightarrow> l
      | None \<Rightarrow> c)"

definition toLowerCase :: "string \<Rightarrow> string" where
  "toLowerCase s = map toLowerCase_char s"

fun startsWith :: "string \<Rightarrow> string \<Rightarrow> bool" where
  "startsWith s [] = True"
| "startsWith [] (p # ps) = False"
| "startsWith (c # cs) (p # ps) = (c = p \<and> startsWith cs ps)"

fun str_includes :: "string \<Rightarrow> string \<Rightarrow> bool" where
  "str_includes [] p = (p = [])"
| "str_includes (c # cs) p = (startsWith (c # cs) p \<or> str_includes cs p)"

subsection \<open>The component's state\<close>

text \<open>
  \<open>'a promise\<close> is the settled result of an awaited call. \<open>js_string\<close> is what the
  cell \<open>spokenText\<close> can hold: a string, or \<open>undefined\<close> (index 0 of an empty array).
  The \<open>trace\<close> lists the platform calls made so far, oldest first;
  \<open>Unhandled_rejection\<close> records a promise that rejected with no handler attached.
\<close>

datatype 'a promise = Resolves 'a | Rejects

datatype Platform_OS = android | ios

datatype PermissionResult = GRANTED | DENIED | NEVER_ASK_AGAIN

datatype PermissionStatus = granted | denied | undetermined

datatype CameraType = Type_back | Type_front

datatype js_string = Undefined | Str string

datatype action =
    Animated_timing_start real nat
  | PermissionsAndroid_request
  | Voice_isAvailable
  | Voice_start string
  | Voice_stop
  | Voice_destroy
  | Voice_removeAllListeners
  | Camera_requestCameraPermissionsAsync
  | Alert_alert string string
  | console_warn
  | console_error string
  | Unhandled_rejection

record state =
  isOpen :: bool
  isListening :: bool
  spokenText :: js_string
  isVoiceAvailable :: bool
  hasCameraPermission :: "bool option"
  cameraType :: CameraType
  trace :: "action list"

datatype error = TypeError

type_synonym outcome = "(error \<times> state) + state"

definition initial_state :: state where
  "initial_state =
     \<lparr>isOpen = False, isListening = False, spokenText = Str [], isVoiceAvailable = False,
      hasCameraPermission = None, cameraType = Type_back, trace = []\<rparr>"

definition emit :: "action list \<Rightarrow> state \<Rightarrow> state" where
  "emit as s = s\<lparr>trace := trace s @ as\<rparr>"

subsection \<open>The handlers\<close>

text \<open>
  \<open>toggleMenu\<close> (lines 50 to 58): starts a 200 ms timing animation towards
  \<open>- SCREEN_WIDTH\<close> or 0 and negates \<open>isOpen\<close>. \<open>SCREEN_WIDTH\<close> is the window's
  width, read once when the module loads; it is a parameter here.
\<close>

definition toggleMenu :: "real \<Rightarrow> state \<Rightarrow> state" where
  "toggleMenu SCREEN_WIDTH s =
     (let toValue = (if isOpen s then - SCREEN_WIDTH else 0);
          s1 = emit [Animated_timing_start toValue 200] s
      in s1\<lparr>isOpen := \<not> isOpen s\<rparr>)"

text \<open>
  \<open>onSpeechResults\<close> (lines 60 to 63). A result event is modelled by its \<open>value\<close>
  array, the candidate transcripts, best first (the voice library's native modules always
  put an array there, possibly an empty one). Index 0 of an empty array is \<open>undefined\<close>.
\<close>

type_synonym SpeechResultsEvent = "string list"

definition index0 :: "string list \<Rightarrow> js_string" where
  "index0 xs = (case xs of [] \<Rightarrow> Undefined | x # _ \<Rightarrow> Str x)"

definition onSpeechResults :: "SpeechResultsEvent \<Rightarrow> state \<Rightarrow> state" where
  "onSpeechResults event s = s\<lparr>spokenText := index0 event, isListening := False\<rparr>"

text \<open>\<open>requestMicrophonePermission\<close> (lines 65 to 86) returns its answer and the state.\<close>

definition requestMicrophonePermission ::
    "Platform_OS \<Rightarrow> PermissionResult promise \<Rightarrow> state \<Rightarrow> bool \<times> state" where
  "requestMicrophonePermission OS request s =
     (if OS = android then
        (case request of
           Resolves r \<Rightarrow> (r = GRANTED, emit [PermissionsAndroid_request] s)
         | Rejects \<Rightarrow> (False, emit [PermissionsAndroid_request, console_warn] s))
      else (True, s))"

text \<open>\<open>checkVoiceAvailability\<close> (lines 88 to 96).\<close>

definition checkVoiceAvailability :: "bool promise \<Rightarrow> state \<Rightarrow> state" where
  "checkVoiceAvailability available s =
     (case available of
        Resolves isAvailable \<Rightarrow> (emit [Voice_isAvailable] s)\<lparr>isVoiceAvailable := isAvailable\<rparr>
      | Rejects \<Rightarrow>
          (emit [Voice_isAvailable, console_error ''Error checking voice availability:''] s)
            \<lparr>isVoiceAvailable := False\<rparr>)"

text \<open>\<open>startListening\<close> (lines 98 to 118) and \<open>stopListening\<close> (lines 120 to 128).\<close>

definition startListening ::
    "Platform_OS \<Rightarrow> PermissionResult promise \<Rightarrow> unit promise \<Rightarrow> state \<Rightarrow> state" where
  "startListening OS request started s =
     (let (hasPermission, s1) = requestMicrophonePermission OS request s
      in if \<not> hasPermission then
           emit [Alert_alert ''Permission Denied''
                   ''Microphone permission is required for speech recognition.''] s1
         else if \<not> isVoiceAvailable s1 then
           emit [Alert_alert ''Voice Recognition Unavailable''
                   ''Voice recognition is not available on this device.''] s1
         else
           (let s2 = s1\<lparr>isListening := True\<rparr>;
                s3 = emit [Voice_start ''en-US''] s2
            in case started of
                 Resolves _ \<Rightarrow> s3
               | Rejects \<Rightarrow>
                   (emit [console_error ''Failed to start speech recognition'',
                          Alert_alert ''Error''
                            ''Failed to start speech recognition. Please try again.''] s3)
                     \<lparr>isListening := False\<rparr>))"

definition stopListening :: "unit promise \<Rightarrow> state \<Rightarrow> state" where
  "stopListening stopped s =
     (let s1 = emit [Voice_stop] s
      in case stopped of
           Resolves _ \<Rightarrow> s1\<lparr>isListening := False\<rparr>
         | Rejects \<Rightarrow>
             emit [console_error ''Failed to stop speech recognition'',
                   Alert_alert ''Error''
                     ''Failed to stop speech recognition. Please try again.''] s1)"

text \<open>\<open>toggleCameraType\<close> (lines 130 to 136).\<close>

definition toggleCameraType :: "state \<Rightarrow> state" where
  "toggleCameraType s =
     s\<lparr>cameraType := (if cameraType s = Type_back then Type_front else Type_back)\<rparr>"

subsection \<open>The effects\<close>

text \<open>
  The mount effect (lines 138 to 156). \<open>init\<close> awaits the microphone request, the
  availability check when the request was granted, and the camera request. Only the two
  helpers catch: when the camera request rejects, \<open>init\<close>'s promise rejects with nobody
  awaiting it and \<open>hasCameraPermission\<close> keeps \<open>null\<close>. The effect also installs
  \<open>onSpeechResults\<close> as the voice library's result listener. The clean-up it returns
  calls \<open>Voice.destroy\<close> and chains \<open>Voice.removeAllListeners\<close> with \<open>then\<close>, without
  a \<open>catch\<close>.
\<close>

definition init ::
    "Platform_OS \<Rightarrow> PermissionResult promise \<Rightarrow> bool promise \<Rightarrow> PermissionStatus promise
       \<Rightarrow> state \<Rightarrow> state" where
  "init OS request available camera s =
     (let (hasPermission, s1) = requestMicrophonePermission OS request s;
          s2 = (if hasPermission then checkVoiceAvailability available s1 else s1);
          s3 = emit [Camera_requestCameraPermissionsAsync] s2
      in case camera of
           Resolves status \<Rightarrow> s3\<lparr>hasCameraPermission := Some (status = granted)\<rparr>
         | Rejects \<Rightarrow> emit [Unhandled_rejection] s3)"

definition cleanup :: "unit promise \<Rightarrow> state \<Rightarrow> state" where
  "cleanup destroyed s =
     (let s1 = emit [Voice_destroy] s
      in case destroyed of
           Resolves _ \<Rightarrow> emit [Voice_removeAllListeners] s1
         | Rejects \<Rightarrow> emit [Unhandled_rejection] s1)"

text \<open>
  The intent effect (lines 158 to 164). On \<open>undefined\<close> the call of \<open>toLowerCase\<close>
  throws.
\<close>

definition intent_effect :: "real \<Rightarrow> state \<Rightarrow> outcome" where
  "intent_effect SCREEN_WIDTH s =
     (case spokenText s of
        Undefined \<Rightarrow> Inl (TypeError, s)
      | Str t \<Rightarrow>
          if str_includes (toLowerCase t) ''open menu'' then
            (if \<not> isOpen s then Inr (toggleMenu SCREEN_WIDTH s) else Inr s)
          else if str_includes (toLowerCase t) ''close menu'' then
            (if isOpen s then Inr (toggleMenu SCREEN_WIDTH s) else Inr s)
          else Inr s)"

text \<open>
  The branch the effect's conditions select for a transcript, named as the specification
  names it (its \<open>None\<close> is \<open>NoIntent\<close> here).
\<close>

datatype Intent = OpenDrawer | CloseDrawer | NoIntent

definition intent_of :: "string \<Rightarrow> Intent" where
  "intent_of t =
     (if str_includes (toLowerCase t) ''open menu'' then OpenDrawer
      else if str_includes (toLowerCase t) ''close menu'' then CloseDrawer
      else NoIntent)"

text \<open>
  The specification's reading of the match, in its own words: some contiguous part of the
  text equals the phrase once case is ignored.
\<close>

definition contains_ignoring_case :: "string \<Rightarrow> string \<Rightarrow> bool" where
  "contains_ignoring_case text phrase =
     (\<exists>pre mid post. text = pre @ mid @ post \<and> toLowerCase mid = toLowerCase phrase)"

subsection \<open>Rendering, events and runs\<close>

text \<open>
  What the component returns (lines 166 to 225), as far as behaviour goes: an empty view
  while the camera permission is unknown, a text when it was refused, and otherwise the
  screen, whose voice button is bound to \<open>stopListening\<close> or \<open>startListening\<close> by
  \<open>isListening\<close> and whose \<open>Camera\<close> element gets \<open>cameraType\<close>. The \<open>Camera\<close>
  element is the only place where the component touches the capture device.
\<close>

datatype onPress = press_startListening | press_stopListening

datatype element =
    EmptyView
  | NoAccessText
  | Screen onPress string CameraType "string option"

definition render :: "state \<Rightarrow> element" where
  "render s =
     (case hasCameraPermission s of
        None \<Rightarrow> EmptyView
      | Some False \<Rightarrow> NoAccessText
      | Some True \<Rightarrow>
          Screen (if isListening s then press_stopListening else press_startListening)
            (if isListening s then ''mic'' else ''mic-off'')
            (cameraType s)
            (case spokenText s of
               Str t \<Rightarrow> if t \<noteq> [] then Some (''You said: '' @ t) else None
             | Undefined \<Rightarrow> None))"

definition camera_mounted :: "element \<Rightarrow> bool" where
  "camera_mounted v = (case v of Screen _ _ _ _ \<Rightarrow> True | _ \<Rightarrow> False)"

text \<open>
  The events the mounted component reacts to: a press on the menu button, on the drawer's
  close button, on the voice button (with the answers the permission request and the
  engine call will get) or on the camera button, and a speech result. A button can be
  pressed only when it is rendered.
\<close>

datatype event =
    PressMenu
  | PressClose
  | PressVoice "PermissionResult promise" "unit promise"
  | PressCameraFlip
  | SpeechResults SpeechResultsEvent

definition handle_event :: "real \<Rightarrow> Platform_OS \<Rightarrow> event \<Rightarrow> state \<Rightarrow> state" where
  "handle_event SCREEN_WIDTH OS ev s =
     (case ev of
        SpeechResults event \<Rightarrow> onSpeechResults event s
      | _ \<Rightarrow>
          (case render s of
             Screen voiceOnPress _ _ _ \<Rightarrow>
               (case ev of
                  PressMenu \<Rightarrow> toggleMenu SCREEN_WIDTH s
                | PressClose \<Rightarrow> toggleMenu SCREEN_WIDTH s
                | PressVoice request engine \<Rightarrow>
                    if voiceOnPress = press_stopListening then stopListening engine s
                    else startListening OS request engine s
                | PressCameraFlip \<Rightarrow> toggleCameraType s
                | SpeechResults event \<Rightarrow> onSpeechResults event s)
           | _ \<Rightarrow> s))"

text \<open>
  After a handler has written cells the component renders again, and React runs the intent
  effect when one of its dependencies \<open>[spokenText, isOpen, toggleMenu]\<close> differs from
  its value at the effect's last run (\<open>toggleMenu\<close> is rebuilt exactly when \<open>isOpen\<close>
  changes). The effect may write \<open>isOpen\<close> itself, which renders again. \<open>deps\<close> are
  the dependencies at the last run. An exception thrown by the effect ends the run, with
  the state at which it was thrown.
\<close>

function rerender :: "real \<Rightarrow> js_string \<times> bool \<Rightarrow> state \<Rightarrow> outcome" where
  "rerender SCREEN_WIDTH deps s =
     (if deps = (spokenText s, isOpen s) then Inr s
      else
        (case intent_effect SCREEN_WIDTH s of
           Inl e \<Rightarrow> Inl e
         | Inr s' \<Rightarrow> rerender SCREEN_WIDTH (spokenText s, isOpen s) s'))"
  by pat_completeness auto
termination
  by (relation "measure (\<lambda>(W, deps, s).
         (if deps = (spokenText s, isOpen s) then 0 else 1)
         + (case intent_effect W s of
              Inr s' \<Rightarrow> if isOpen s' = isOpen s then 0 else 2
            | Inl _ \<Rightarrow> 0))")
     (auto simp: intent_effect_def toggleMenu_def emit_def split: js_string.splits if_splits)

declare rerender.simps [simp del]

definition dispatch :: "real \<Rightarrow> Platform_OS \<Rightarrow> event \<Rightarrow> state \<Rightarrow> outcome" where
  "dispatch SCREEN_WIDTH OS ev s =
     rerender SCREEN_WIDTH (spokenText s, isOpen s) (handle_event SCREEN_WIDTH OS ev s)"

fun run :: "real \<Rightarrow> Platform_OS \<Rightarrow> state \<Rightarrow> event list \<Rightarrow> outcome" where
  "run SCREEN_WIDTH OS s [] = Inr s"
| "run SCREEN_WIDTH OS s (ev # evs) =
     (case dispatch SCREEN_WIDTH OS ev s of
        Inl e \<Rightarrow> Inl e
      | Inr s' \<Rightarrow> run SCREEN_WIDTH OS s' evs)"

text \<open>
  Mounting runs both effects on the initial cells. The intent effect finds the empty
  transcript and does nothing (lemma \<open>intent_effect_initial\<close>), so the mounted state is
  what \<open>init\<close> leaves. Unmounting runs the clean-up on the state the run has reached,
  also when the run ended in an exception.
\<close>

definition mount ::
    "Platform_OS \<Rightarrow> PermissionResult promise \<Rightarrow> bool promise \<Rightarrow> PermissionStatus promise
       \<Rightarrow> state" where
  "mount OS request available camera = init OS request available camera initial_state"

definition state_at :: "outcome \<Rightarrow> state" where
  "state_at r = (case r of Inl (e, s) \<Rightarrow> s | Inr s \<Rightarrow> s)"

definition unmount :: "unit promise \<Rightarrow> outcome \<Rightarrow> state" where
  "unmount destroyed r = cleanup destroyed (state_at r)"

text \<open>Observers of a trace and of a list of events, used to count calls and presses.\<close>

fun is_Voice_start :: "action \<Rightarrow> bool" where
  "is_Voice_start (Voice_start lang) = True"
| "is_Voice_start a = False"

fun is_PressVoice :: "event \<Rightarrow> bool" where
  "is_PressVoice (PressVoice request engine) = True"
| "is_PressVoice ev = False"

section \<open>Properties\<close>

subsection \<open>Matching\<close>

lemma startsWith_iff: "startsWith s p \<longleftrightarrow> (\<exists>post. s = p @ post)"
  by (induction s p rule: startsWith.induct) auto

lemma str_includes_iff: "str_includes s p \<longleftrightarrow> (\<exists>pre post. s = pre @ p @ post)"
proof (induction s)
  case Nil
  then show ?case by auto
next
  case (Cons c cs)
  show ?case
  proof
    assume "str_includes (c # cs) p"
    then consider "startsWith (c # cs) p" | "str_includes cs p" by auto
    then show "\<exists>pre post. c # cs = pre @ p @ post"
    proof cases
      case 1
      then obtain post where "c # cs = p @ post" by (auto simp: startsWith_iff)
      then have "c # cs = [] @ p @ post" by simp
      then show ?thesis by blast
    next
      case 2
      then obtain pre post where "cs = pre @ p @ post" using Cons.IH by auto
      then have "c # cs = (c # pre) @ p @ post" by simp
      then show ?thesis by blast
    qed
  next
    assume "\<exists>pre post. c # cs = pre @ p @ post"
    then obtain pre post where eq: "c # cs = pre @ p @ post" by auto
    show "str_includes (c # cs) p"
    proof (cases pre)
      case Nil
      with eq have "startsWith (c # cs) p" by (auto simp: startsWith_iff)
      then show ?thesis by simp
    next
      case (Cons a pre')
      with eq have "cs = pre' @ p @ post" by simp
      then have "str_includes cs p" using Cons.IH by auto
      then show ?thesis by simp
    qed
  qed
qed

lemma map_eq_append3D:
  assumes "map f t = pre @ q @ post"
  shows "\<exists>a b c. t = a @ b @ c \<and> map f b = q"
proof -
  from assms obtain a r where t: "t = a @ r" and r: "q @ post = map f r"
    using map_eq_append_conv [THEN iffD1, OF assms] by blast
  from r obtain b c where "r = b @ c" "q = map f b"
    using append_eq_map_conv [THEN iffD1, OF r] by blast
  with t show ?thesis by blast
qed

lemma includes_toLowerCase_iff:
  "str_includes (toLowerCase t) (toLowerCase p) \<longleftrightarrow> contains_ignoring_case t p"
proof
  assume "str_includes (toLowerCase t) (toLowerCase p)"
  then obtain pre post where "map toLowerCase_char t = pre @ toLowerCase p @ post"
    unfolding str_includes_iff toLowerCase_def by blast
  from map_eq_append3D [OF this]
  show "contains_ignoring_case t p"
    unfolding contains_ignoring_case_def toLowerCase_def by blast
next
  assume "contains_ignoring_case t p"
  then obtain a b c where "t = a @ b @ c" "toLowerCase b = toLowerCase p"
    unfolding contains_ignoring_case_def by blast
  then have "toLowerCase t = toLowerCase a @ toLowerCase p @ toLowerCase c"
    by (simp add: toLowerCase_def)
  then show "str_includes (toLowerCase t) (toLowerCase p)"
    unfolding str_includes_iff by blast
qed

lemma toLowerCase_open_menu: "toLowerCase ''open menu'' = ''open menu''"
  by (simp add: toLowerCase_def toLowerCase_char_def)

lemma toLowerCase_close_menu: "toLowerCase ''close menu'' = ''close menu''"
  by (simp add: toLowerCase_def toLowerCase_char_def)

lemma intent_of_contains:
  "intent_of t =
     (if contains_ignoring_case t ''open menu'' then OpenDrawer
      else if contains_ignoring_case t ''close menu'' then CloseDrawer
      else NoIntent)"
  using includes_toLowerCase_iff [of t "''open menu''"]
    includes_toLowerCase_iff [of t "''close menu''"]
  by (simp add: intent_of_def toLowerCase_open_menu toLowerCase_close_menu)

lemma intent_effect_intent_of:
  "intent_effect W s =
     (case spokenText s of
        Undefined \<Rightarrow> Inl (TypeError, s)
      | Str t \<Rightarrow>
          (case intent_of t of
             OpenDrawer \<Rightarrow> if \<not> isOpen s then Inr (toggleMenu W s) else Inr s
           | CloseDrawer \<Rightarrow> if isOpen s then Inr (toggleMenu W s) else Inr s
           | NoIntent \<Rightarrow> Inr s))"
  by (simp add: intent_effect_def intent_of_def split: js_string.splits)

text \<open>
  Claim C1. What the intent effect does is a function of the transcript's text and of
  \<open>isOpen\<close> alone, decided by a case-insensitive search for two phrases: when the text
  contains "open menu" the drawer is opened (toggled unless already open), otherwise when
  it contains "close menu" the drawer is closed, otherwise nothing happens; when both
  phrases are present "open menu" wins. Accordingly the branch taken is OpenDrawer,
  CloseDrawer or none, and on the four transcripts of the specification the effect leaves
  the drawer open, closed, as it was, and open.
\<close>

theorem interpret_case_insensitive_substring:
  "intent_effect W s =
     (case spokenText s of
        Undefined \<Rightarrow> Inl (TypeError, s)
      | Str t \<Rightarrow>
          if contains_ignoring_case t ''open menu'' then
            Inr (if isOpen s then s else toggleMenu W s)
          else if contains_ignoring_case t ''close menu'' then
            Inr (if isOpen s then toggleMenu W s else s)
          else Inr s)
   \<and> intent_of u =
       (if contains_ignoring_case u ''open menu'' then OpenDrawer
        else if contains_ignoring_case u ''close menu'' then CloseDrawer
        else NoIntent)
   \<and> isOpen (state_at (intent_effect W (s\<lparr>spokenText := Str ''OPEN MENU please''\<rparr>)))
   \<and> \<not> isOpen (state_at (intent_effect W (s\<lparr>spokenText := Str ''please close menu now''\<rparr>)))
   \<and> intent_effect W (s\<lparr>spokenText := Str ''hello world''\<rparr>)
       = Inr (s\<lparr>spokenText := Str ''hello world''\<rparr>)
   \<and> isOpen (state_at
        (intent_effect W (s\<lparr>spokenText := Str ''open menu then close menu''\<rparr>)))
   \<and> intent_of ''OPEN MENU please'' = OpenDrawer
   \<and> intent_of ''please close menu now'' = CloseDrawer
   \<and> intent_of ''hello world'' = NoIntent
   \<and> intent_of ''open menu then close menu'' = OpenDrawer"
proof -
  have general: "intent_effect W s =
     (case spokenText s of
        Undefined \<Rightarrow> Inl (TypeError, s)
      | Str t \<Rightarrow>
          if contains_ignoring_case t ''open menu'' then
            Inr (if isOpen s then s else toggleMenu W s)
          else if contains_ignoring_case t ''close menu'' then
            Inr (if isOpen s then toggleMenu W s else s)
          else Inr s)"
  proof (cases "spokenText s")
    case Undefined
    then show ?thesis by (simp add: intent_effect_def)
  next
    case (Str t)
    then show ?thesis
      using includes_toLowerCase_iff [of t "''open menu''"]
        includes_toLowerCase_iff [of t "''close menu''"]
      by (simp add: intent_effect_def toLowerCase_open_menu toLowerCase_close_menu)
  qed
  have i1: "intent_of ''OPEN MENU please'' = OpenDrawer"
    by (simp add: intent_of_def toLowerCase_def toLowerCase_char_def)
  have i2: "intent_of ''please close menu now'' = CloseDrawer"
    by (simp add: intent_of_def toLowerCase_def toLowerCase_char_def)
  have i3: "intent_of ''hello world'' = NoIntent"
    by (simp add: intent_of_def toLowerCase_def toLowerCase_char_def)
  have i4: "intent_of ''open menu then close menu'' = OpenDrawer"
    by (simp add: intent_of_def toLowerCase_def toLowerCase_char_def)
  have opens: "isOpen (state_at (intent_effect W (s\<lparr>spokenText := Str t\<rparr>)))"
    if "intent_of t = OpenDrawer" for t
    using that
    by (simp add: intent_effect_intent_of state_at_def toggleMenu_def emit_def Let_def)
  have closes: "\<not> isOpen (state_at (intent_effect W (s\<lparr>spokenText := Str t\<rparr>)))"
    if "intent_of t = CloseDrawer" for t
    using that
    by (simp add: intent_effect_intent_of state_at_def toggleMenu_def emit_def Let_def)
  have ignores: "intent_effect W (s\<lparr>spokenText := Str t\<rparr>) = Inr (s\<lparr>spokenText := Str t\<rparr>)"
    if "intent_of t = NoIntent" for t
    using that by (simp add: intent_effect_intent_of)
  show ?thesis
    by (intro conjI general intent_of_contains i1 i2 i3 i4
          opens [OF i1] closes [OF i2] ignores [OF i3] opens [OF i4])
qed

theorem interpret_case_insensitive_substring_witness:
  "intent_effect 400
      \<lparr>isOpen = True, isListening = False, spokenText = Str ''say Close Menu'',
       isVoiceAvailable = True, hasCameraPermission = Some True, cameraType = Type_back,
       trace = []\<rparr>
     = Inr \<lparr>isOpen = False, isListening = False, spokenText = Str ''say Close Menu'',
            isVoiceAvailable = True, hasCameraPermission = Some True, cameraType = Type_back,
            trace = [Animated_timing_start (- 400) 200]\<rparr>
   \<and> contains_ignoring_case ''say Close Menu'' ''close menu''
   \<and> \<not> contains_ignoring_case ''say Close Menu'' ''open menu''"
proof -
  let ?s = "\<lparr>isOpen = True, isListening = False, spokenText = Str ''say Close Menu'',
       isVoiceAvailable = True, hasCameraPermission = Some True, cameraType = Type_back,
       trace = []\<rparr>"
  have a: "intent_effect 400 ?s
     = Inr \<lparr>isOpen = False, isListening = False, spokenText = Str ''say Close Menu'',
            isVoiceAvailable = True, hasCameraPermission = Some True, cameraType = Type_back,
            trace = [Animated_timing_start (- 400) 200]\<rparr>"
    by (simp add: intent_effect_def toggleMenu_def emit_def toLowerCase_def
          toLowerCase_char_def)
  show ?thesis
    using interpret_case_insensitive_substring [of 400 ?s] a
    by (auto split: if_splits)
qed

subsection \<open>Rendering again after a handler\<close>

text \<open>
  The intent effect runs at most twice in a row: once it has toggled the drawer, the
  drawer agrees with the transcript and the next run changes nothing.
\<close>

lemma intent_effect_initial: "intent_effect W initial_state = Inr initial_state"
  by (simp add: intent_effect_def initial_state_def toLowerCase_def)

lemma rerender_same: "rerender W (spokenText s, isOpen s) s = Inr s"
  by (simp add: rerender.simps [of W "(spokenText s, isOpen s)" s])

lemma rerender_Undefined:
  "spokenText s = Undefined \<Longrightarrow> deps \<noteq> (Undefined, isOpen s) \<Longrightarrow>
     rerender W deps s = Inl (TypeError, s)"
  by (simp add: rerender.simps [of W deps s] intent_effect_def)

lemma toggleMenu_fields:
  "isOpen (toggleMenu W s) = (\<not> isOpen s)"
  "spokenText (toggleMenu W s) = spokenText s"
  "isListening (toggleMenu W s) = isListening s"
  "isVoiceAvailable (toggleMenu W s) = isVoiceAvailable s"
  "hasCameraPermission (toggleMenu W s) = hasCameraPermission s"
  "cameraType (toggleMenu W s) = cameraType s"
  "trace (toggleMenu W s) =
     trace s @ [Animated_timing_start (if isOpen s then - W else 0) 200]"
  by (simp_all add: toggleMenu_def emit_def Let_def)

lemma rerender_Str:
  assumes "spokenText s = Str t" and "deps \<noteq> (Str t, isOpen s)"
  shows "rerender W deps s =
     Inr (if (intent_of t = OpenDrawer \<and> \<not> isOpen s) \<or> (intent_of t = CloseDrawer \<and> isOpen s)
          then toggleMenu W s else s)"
proof (cases "(intent_of t = OpenDrawer \<and> \<not> isOpen s) \<or> (intent_of t = CloseDrawer \<and> isOpen s)")
  case True
  then have eff: "intent_effect W s = Inr (toggleMenu W s)"
    using assms(1) by (auto simp: intent_effect_intent_of)
  have eff2: "intent_effect W (toggleMenu W s) = Inr (toggleMenu W s)"
    using True assms(1) by (auto simp: intent_effect_intent_of toggleMenu_fields)
  have "rerender W deps s = rerender W (Str t, isOpen s) (toggleMenu W s)"
    using assms eff by (simp add: rerender.simps [of W deps s])
  also have "\<dots> = rerender W (Str t, \<not> isOpen s) (toggleMenu W s)"
    using assms(1) eff2
    by (simp add: rerender.simps [of W "(Str t, isOpen s)" "toggleMenu W s"] toggleMenu_fields)
  also have "\<dots> = Inr (toggleMenu W s)"
    using rerender_same [of W "toggleMenu W s"] assms(1) by (simp add: toggleMenu_fields)
  finally have "rerender W deps s = Inr (toggleMenu W s)" .
  with True show ?thesis by (simp only: if_True)
next
  case False
  then have eff: "intent_effect W s = Inr s"
    using assms(1) by (auto simp: intent_effect_intent_of split: Intent.splits)
  have "rerender W deps s = rerender W (Str t, isOpen s) s"
    using assms eff by (simp add: rerender.simps [of W deps s])
  also have "\<dots> = Inr s" using rerender_same [of W s] assms(1) by simp
  finally have "rerender W deps s = Inr s" .
  with False show ?thesis by (simp only: if_False)
qed

lemma dispatch_SpeechResults:
  "dispatch W OS (SpeechResults event) s =
     rerender W (spokenText s, isOpen s) (s\<lparr>spokenText := index0 event, isListening := False\<rparr>)"
  by (simp add: dispatch_def handle_event_def onSpeechResults_def)

lemma dispatch_toggle:
  assumes "hasCameraPermission s = Some True" and "ev = PressMenu \<or> ev = PressClose"
  shows "dispatch W OS ev s = rerender W (spokenText s, isOpen s) (toggleMenu W s)"
  using assms by (auto simp: dispatch_def handle_event_def render_def)

lemma rerender_cases:
  "state_at (rerender W deps s) = s \<or> state_at (rerender W deps s) = toggleMenu W s"
proof (cases "deps = (spokenText s, isOpen s)")
  case True
  then show ?thesis using rerender_same [of W s] by (simp add: state_at_def)
next
  case False
  show ?thesis
  proof (cases "spokenText s")
    case Undefined
    then show ?thesis using False rerender_Undefined [of s deps W] by (simp add: state_at_def)
  next
    case (Str t)
    then show ?thesis using False rerender_Str [of s t deps W] by (simp add: state_at_def)
  qed
qed

lemma dispatch_cases:
  "state_at (dispatch W OS ev s) = handle_event W OS ev s
   \<or> state_at (dispatch W OS ev s) = toggleMenu W (handle_event W OS ev s)"
  unfolding dispatch_def by (rule rerender_cases)

lemma run_invariant:
  assumes "P s"
    and "\<And>ev s. P s \<Longrightarrow> P (handle_event W OS ev s)"
    and "\<And>s. P s \<Longrightarrow> P (toggleMenu W s)"
  shows "P (state_at (run W OS s evs))"
  using assms(1)
proof (induction evs arbitrary: s)
  case Nil
  then show ?case by (simp add: state_at_def)
next
  case (Cons ev evs)
  have step: "P (state_at (dispatch W OS ev s))"
    using dispatch_cases [of W OS ev s] assms(2) [OF Cons.prems, of ev] assms(3) by metis
  show ?case
  proof (cases "dispatch W OS ev s")
    case (Inl e)
    then show ?thesis using step by (simp add: state_at_def)
  next
    case (Inr s')
    then have "P s'" using step by (simp add: state_at_def)
    then show ?thesis using Cons.IH Inr by simp
  qed
qed

lemma handle_event_unrendered:
  "hasCameraPermission s \<noteq> Some True \<Longrightarrow>
     handle_event W OS ev s = (case ev of SpeechResults event \<Rightarrow> onSpeechResults event s | _ \<Rightarrow> s)"
  by (cases "hasCameraPermission s"; cases ev)
     (auto simp: handle_event_def render_def split: bool.splits)

lemma handle_event_hasCameraPermission:
  "hasCameraPermission (handle_event W OS ev s) = hasCameraPermission s"
  by (cases ev)
     (auto simp: handle_event_def render_def onSpeechResults_def toggleMenu_fields
        toggleCameraType_def stopListening_def startListening_def
        requestMicrophonePermission_def emit_def Let_def
        split: option.splits bool.splits promise.splits)

lemma mount_hasCameraPermission:
  "hasCameraPermission (mount OS request available camera)
     = (case camera of Resolves status \<Rightarrow> Some (status = granted) | Rejects \<Rightarrow> None)"
  by (auto simp: mount_def init_def initial_state_def requestMicrophonePermission_def
        checkVoiceAvailability_def emit_def Let_def split: promise.splits)

text \<open>The definitions a run on concrete inputs unfolds.\<close>

lemmas eval_defs =
  mount_def init_def initial_state_def requestMicrophonePermission_def
  checkVoiceAvailability_def emit_def dispatch_def handle_event_def render_def
  startListening_def stopListening_def onSpeechResults_def index0_def intent_effect_def
  toggleMenu_def toLowerCase_def toLowerCase_char_def toggleCameraType_def state_at_def
  unmount_def cleanup_def rerender.simps camera_mounted_def

subsection \<open>The drawer\<close>

text \<open>
  Claim C3. A voice command whose target is the state the drawer is already in changes
  neither \<open>isOpen\<close> nor the trace: no timed animation is started. This holds when the
  command arrives (only the transcript and the listening flag are written) and whenever
  the intent effect runs again on an unchanged transcript.
\<close>

theorem redundant_intent_is_noop:
  assumes "(intent_of t = OpenDrawer \<and> isOpen s) \<or> (intent_of t = CloseDrawer \<and> \<not> isOpen s)"
  shows "dispatch W OS (SpeechResults (t # alternatives)) s
           = Inr (s\<lparr>spokenText := Str t, isListening := False\<rparr>)
         \<and> (spokenText s = Str t \<longrightarrow> intent_effect W s = Inr s \<and> rerender W deps s = Inr s)"
proof -
  let ?s' = "s\<lparr>spokenText := Str t, isListening := False\<rparr>"
  have not_needed:
    "\<not> ((intent_of t = OpenDrawer \<and> \<not> isOpen s) \<or> (intent_of t = CloseDrawer \<and> isOpen s))"
    using assms by auto
  have a: "rerender W d ?s' = Inr ?s'" for d
  proof (cases "d = (Str t, isOpen ?s')")
    case True
    then show ?thesis using rerender_same [of W ?s'] by simp
  next
    case False
    then show ?thesis using rerender_Str [of ?s' t d W] not_needed by simp
  qed
  have b: "rerender W deps s = Inr s" if "spokenText s = Str t"
  proof (cases "deps = (Str t, isOpen s)")
    case True
    then show ?thesis using rerender_same [of W s] that by simp
  next
    case False
    then show ?thesis using rerender_Str [of s t deps W] not_needed that by simp
  qed
  have c: "intent_effect W s = Inr s" if "spokenText s = Str t"
    using that assms by (auto simp: intent_effect_intent_of)
  show ?thesis
    using a b c by (simp add: dispatch_SpeechResults index0_def)
qed

theorem redundant_intent_is_noop_witness:
  "intent_of ''Open Menu'' = OpenDrawer
   \<and> dispatch 400 android (SpeechResults [''Open Menu''])
        \<lparr>isOpen = True, isListening = True, spokenText = Str ''Open Menu'', isVoiceAvailable = True,
         hasCameraPermission = Some True, cameraType = Type_back,
         trace = [Voice_start ''en-US'', Animated_timing_start 0 200]\<rparr>
     = Inr \<lparr>isOpen = True, isListening = False, spokenText = Str ''Open Menu'',
            isVoiceAvailable = True, hasCameraPermission = Some True, cameraType = Type_back,
            trace = [Voice_start ''en-US'', Animated_timing_start 0 200]\<rparr>"
proof -
  have i: "intent_of ''Open Menu'' = OpenDrawer"
    by (simp add: intent_of_def toLowerCase_def toLowerCase_char_def)
  show ?thesis
    using i redundant_intent_is_noop [of "''Open Menu''"
        "\<lparr>isOpen = True, isListening = True, spokenText = Str ''Open Menu'',
          isVoiceAvailable = True, hasCameraPermission = Some True, cameraType = Type_back,
          trace = [Voice_start ''en-US'', Animated_timing_start 0 200]\<rparr>" 400 android "[]"]
    by simp
qed

text \<open>
  Claim C9. The intent effect runs on every change of \<open>isOpen\<close>, not only when a
  transcript arrives. While the transcript says "open menu", a state whose drawer has just
  been closed is re-opened by the next run of the effect, and a press on the close button
  ends with the drawer open after a closing and an opening animation; symmetrically for
  "close menu" and an opening.
\<close>

theorem stale_transcript_reapplied:
  assumes "spokenText s = Str t"
  shows "(intent_of t = OpenDrawer \<and> \<not> isOpen s \<longrightarrow>
            rerender W (Str t, True) s = Inr (toggleMenu W s) \<and> isOpen (toggleMenu W s))
       \<and> (intent_of t = CloseDrawer \<and> isOpen s \<longrightarrow>
            rerender W (Str t, False) s = Inr (toggleMenu W s) \<and> \<not> isOpen (toggleMenu W s))
       \<and> (hasCameraPermission s = Some True \<and> intent_of t = OpenDrawer \<and> isOpen s \<longrightarrow>
            dispatch W OS PressClose s
              = Inr (emit [Animated_timing_start (- W) 200, Animated_timing_start 0 200] s))
       \<and> (hasCameraPermission s = Some True \<and> intent_of t = CloseDrawer \<and> \<not> isOpen s \<longrightarrow>
            dispatch W OS PressMenu s
              = Inr (emit [Animated_timing_start 0 200, Animated_timing_start (- W) 200] s))"
proof -
  have tt: "toggleMenu W (toggleMenu W s)
      = emit [Animated_timing_start (if isOpen s then - W else 0) 200,
              Animated_timing_start (if isOpen s then 0 else - W) 200] s"
    by (simp add: toggleMenu_def emit_def Let_def)
  have 1: "rerender W (Str t, True) s = Inr (toggleMenu W s)"
    if "intent_of t = OpenDrawer" "\<not> isOpen s"
    using rerender_Str [of s t "(Str t, True)" W] that assms by simp
  have 2: "rerender W (Str t, False) s = Inr (toggleMenu W s)"
    if "intent_of t = CloseDrawer" "isOpen s"
    using rerender_Str [of s t "(Str t, False)" W] that assms by simp
  have 3: "dispatch W OS PressClose s
      = Inr (emit [Animated_timing_start (- W) 200, Animated_timing_start 0 200] s)"
    if "hasCameraPermission s = Some True" "intent_of t = OpenDrawer" "isOpen s"
    using rerender_Str [of "toggleMenu W s" t "(Str t, True)" W] that assms tt
    by (simp add: dispatch_toggle toggleMenu_fields)
  have 4: "dispatch W OS PressMenu s
      = Inr (emit [Animated_timing_start 0 200, Animated_timing_start (- W) 200] s)"
    if "hasCameraPermission s = Some True" "intent_of t = CloseDrawer" "\<not> isOpen s"
    using rerender_Str [of "toggleMenu W s" t "(Str t, False)" W] that assms tt
    by (simp add: dispatch_toggle toggleMenu_fields)
  show ?thesis using 1 2 3 4 by (simp add: toggleMenu_fields)
qed

theorem stale_transcript_reapplied_witness:
  "dispatch 400 android PressClose
      \<lparr>isOpen = True, isListening = False, spokenText = Str ''open menu'', isVoiceAvailable = True,
       hasCameraPermission = Some True, cameraType = Type_back,
       trace = [Animated_timing_start 0 200]\<rparr>
     = Inr \<lparr>isOpen = True, isListening = False, spokenText = Str ''open menu'',
            isVoiceAvailable = True, hasCameraPermission = Some True, cameraType = Type_back,
            trace = [Animated_timing_start 0 200, Animated_timing_start (- 400) 200,
                     Animated_timing_start 0 200]\<rparr>
   \<and> rerender 400 (Str ''close menu'', False)
        \<lparr>isOpen = True, isListening = False, spokenText = Str ''close menu'',
         isVoiceAvailable = True, hasCameraPermission = Some True, cameraType = Type_back,
         trace = [Animated_timing_start 0 200]\<rparr>
     = Inr \<lparr>isOpen = False, isListening = False, spokenText = Str ''close menu'',
            isVoiceAvailable = True, hasCameraPermission = Some True, cameraType = Type_back,
            trace = [Animated_timing_start 0 200, Animated_timing_start (- 400) 200]\<rparr>"
proof -
  have i: "intent_of ''open menu'' = OpenDrawer" "intent_of ''close menu'' = CloseDrawer"
    by (simp_all add: intent_of_def toLowerCase_def toLowerCase_char_def)
  show ?thesis
    using i
      stale_transcript_reapplied [of
        "\<lparr>isOpen = True, isListening = False, spokenText = Str ''open menu'',
          isVoiceAvailable = True, hasCameraPermission = Some True, cameraType = Type_back,
          trace = [Animated_timing_start 0 200]\<rparr>" "''open menu''" 400 android]
      stale_transcript_reapplied [of
        "\<lparr>isOpen = True, isListening = False, spokenText = Str ''close menu'',
          isVoiceAvailable = True, hasCameraPermission = Some True, cameraType = Type_back,
          trace = [Animated_timing_start 0 200]\<rparr>" "''close menu''" 400 android]
    by (simp add: emit_def toggleMenu_def)
qed

text \<open>
  Claim C2. The claim asks that the drawer ends in the target of the last request. The run
  below mounts with every permission granted, receives the transcript "open menu" and then
  a press on the drawer's close button, whose target is Closed: the drawer ends open, the
  closing animation being followed by a third, opening one.
\<close>

theorem press_close_after_open_menu_reopens:
  "run 400 android (mount android (Resolves GRANTED) (Resolves True) (Resolves granted))
       [SpeechResults [''open menu''], PressClose]
     = Inr \<lparr>isOpen = True, isListening = False, spokenText = Str ''open menu'',
            isVoiceAvailable = True, hasCameraPermission = Some True, cameraType = Type_back,
            trace = [PermissionsAndroid_request, Voice_isAvailable,
                     Camera_requestCameraPermissionsAsync, Animated_timing_start 0 200,
                     Animated_timing_start (- 400) 200, Animated_timing_start 0 200]\<rparr>"
  by (simp add: eval_defs)

subsection \<open>The camera\<close>

text \<open>
  Claim C6. When the camera permission request ends in anything but \<open>granted\<close> (a
  refusal, an undetermined status or a rejected request), the \<open>Camera\<close> element is
  rendered neither after mounting nor in any state a run of events reaches: the capture
  device is never opened.
\<close>

theorem camera_never_mounted_without_permission:
  assumes "camera \<noteq> Resolves granted"
  shows "\<not> camera_mounted (render (mount OS request available camera))
       \<and> \<not> camera_mounted
            (render (state_at (run W OS (mount OS request available camera) evs)))"
proof -
  let ?P = "\<lambda>s. hasCameraPermission s \<noteq> Some True"
  have unmounted: "\<not> camera_mounted (render s)" if "?P s" for s
    using that by (auto simp: render_def camera_mounted_def split: option.splits bool.splits)
  have m: "?P (mount OS request available camera)"
    using assms by (cases camera) (auto simp: mount_hasCameraPermission)
  have "?P (state_at (run W OS (mount OS request available camera) evs))"
    by (rule run_invariant [where P = ?P, OF m])
       (simp_all add: handle_event_hasCameraPermission toggleMenu_fields)
  then show ?thesis using m unmounted by blast
qed

theorem camera_never_mounted_without_permission_witness:
  "Resolves denied \<noteq> Resolves granted
   \<and> render (state_at (run 400 android
        (mount android (Resolves GRANTED) (Resolves True) (Resolves denied))
        [PressMenu, SpeechResults [''open menu''], PressCameraFlip])) = NoAccessText
   \<and> \<not> camera_mounted (render (state_at (run 400 android
        (mount android (Resolves GRANTED) (Resolves True) (Resolves denied))
        [PressMenu, SpeechResults [''open menu''], PressCameraFlip])))"
proof -
  have a: "render (state_at (run 400 android
        (mount android (Resolves GRANTED) (Resolves True) (Resolves denied))
        [PressMenu, SpeechResults [''open menu''], PressCameraFlip])) = NoAccessText"
    by (simp add: eval_defs)
  show ?thesis
    using a camera_never_mounted_without_permission [of "Resolves denied" android
        "Resolves GRANTED" "Resolves True" 400
        "[PressMenu, SpeechResults [''open menu''], PressCameraFlip]"]
    by simp
qed

subsection \<open>The voice session\<close>

lemmas handler_defs =
  handle_event_def render_def onSpeechResults_def toggleMenu_def toggleCameraType_def
  stopListening_def startListening_def requestMicrophonePermission_def emit_def Let_def

lemma requestMicrophonePermission_fields:
  "isOpen (snd (requestMicrophonePermission OS request s)) = isOpen s"
  "isListening (snd (requestMicrophonePermission OS request s)) = isListening s"
  "spokenText (snd (requestMicrophonePermission OS request s)) = spokenText s"
  "isVoiceAvailable (snd (requestMicrophonePermission OS request s)) = isVoiceAvailable s"
  "hasCameraPermission (snd (requestMicrophonePermission OS request s)) = hasCameraPermission s"
  "cameraType (snd (requestMicrophonePermission OS request s)) = cameraType s"
  by (auto simp: requestMicrophonePermission_def emit_def split: promise.splits)

text \<open>
  Claim C7, as the code has it. A failing \<open>Voice.start\<close> is caught in
  \<open>startListening\<close>: \<open>isListening\<close> is written back to false and one alert is
  shown. A failing \<open>Voice.stop\<close> is caught in \<open>stopListening\<close>: one alert is shown
  and \<open>isListening\<close> is left as it was, the write that follows the call being skipped.
  Either handler ends normally, nothing is left unhandled, and the press that ran it ends
  in a state.
\<close>

theorem engine_failure_handled_at_call_site:
  assumes "fst (requestMicrophonePermission OS request s)" and "isVoiceAvailable s"
  shows "isListening (startListening OS request Rejects s) = False
       \<and> trace (startListening OS request Rejects s)
           = trace (snd (requestMicrophonePermission OS request s))
             @ [Voice_start ''en-US'', console_error ''Failed to start speech recognition'',
                Alert_alert ''Error'' ''Failed to start speech recognition. Please try again.'']
       \<and> isListening (stopListening Rejects s) = isListening s
       \<and> trace (stopListening Rejects s)
           = trace s
             @ [Voice_stop, console_error ''Failed to stop speech recognition'',
                Alert_alert ''Error'' ''Failed to stop speech recognition. Please try again.'']
       \<and> (hasCameraPermission s = Some True \<longrightarrow>
            dispatch W OS (PressVoice request Rejects) s
              = Inr (if isListening s then stopListening Rejects s
                     else startListening OS request Rejects s))"
proof -
  obtain ok s1 where r: "requestMicrophonePermission OS request s = (ok, s1)"
    by (cases "requestMicrophonePermission OS request s")
  with assms have ok: "ok" and av: "isVoiceAvailable s1"
    using requestMicrophonePermission_fields(4) [of OS request s] by auto
  have start: "startListening OS request Rejects s
      = (emit [Voice_start ''en-US'', console_error ''Failed to start speech recognition'',
               Alert_alert ''Error'' ''Failed to start speech recognition. Please try again.'']
           s1)\<lparr>isListening := False\<rparr>"
    using r ok av by (simp add: startListening_def emit_def Let_def)
  have stop: "stopListening Rejects s
      = emit [Voice_stop, console_error ''Failed to stop speech recognition'',
               Alert_alert ''Error'' ''Failed to stop speech recognition. Please try again.''] s"
    by (simp add: stopListening_def emit_def Let_def)
  have keep_start: "spokenText (startListening OS request Rejects s) = spokenText s"
    "isOpen (startListening OS request Rejects s) = isOpen s"
    using r requestMicrophonePermission_fields(1,3) [of OS request s]
    by (simp_all add: start emit_def)
  have disp: "dispatch W OS (PressVoice request Rejects) s
      = Inr (if isListening s then stopListening Rejects s
             else startListening OS request Rejects s)"
    if "hasCameraPermission s = Some True"
  proof (cases "isListening s")
    case True
    then have "handle_event W OS (PressVoice request Rejects) s = stopListening Rejects s"
      using that by (simp add: handle_event_def render_def)
    then show ?thesis
      using True rerender_same [of W "stopListening Rejects s"]
      by (simp add: dispatch_def stop emit_def)
  next
    case False
    then have "handle_event W OS (PressVoice request Rejects) s
        = startListening OS request Rejects s"
      using that by (simp add: handle_event_def render_def)
    then show ?thesis
      using False rerender_same [of W "startListening OS request Rejects s"] keep_start
      by (simp add: dispatch_def)
  qed
  show ?thesis
    using r disp by (simp add: start stop emit_def)
qed

theorem engine_failure_handled_at_call_site_witness:
  "fst (requestMicrophonePermission android (Resolves GRANTED)
          (mount android (Resolves GRANTED) (Resolves True) (Resolves granted)))
   \<and> isVoiceAvailable (mount android (Resolves GRANTED) (Resolves True) (Resolves granted))
   \<and> dispatch 400 android (PressVoice (Resolves GRANTED) Rejects)
        (mount android (Resolves GRANTED) (Resolves True) (Resolves granted))
     = Inr \<lparr>isOpen = False, isListening = False, spokenText = Str [], isVoiceAvailable = True,
            hasCameraPermission = Some True, cameraType = Type_back,
            trace = [PermissionsAndroid_request, Voice_isAvailable,
                     Camera_requestCameraPermissionsAsync, PermissionsAndroid_request,
                     Voice_start ''en-US'',
                     console_error ''Failed to start speech recognition'',
                     Alert_alert ''Error''
                       ''Failed to start speech recognition. Please try again.'']\<rparr>"
proof -
  let ?m = "mount android (Resolves GRANTED) (Resolves True) (Resolves granted)"
  have m: "?m = \<lparr>isOpen = False, isListening = False, spokenText = Str [],
      isVoiceAvailable = True, hasCameraPermission = Some True, cameraType = Type_back,
      trace = [PermissionsAndroid_request, Voice_isAvailable,
               Camera_requestCameraPermissionsAsync]\<rparr>"
    by (simp add: mount_def init_def initial_state_def requestMicrophonePermission_def
          checkVoiceAvailability_def emit_def)
  have p: "fst (requestMicrophonePermission android (Resolves GRANTED) ?m)"
    by (simp add: requestMicrophonePermission_def)
  have a: "isVoiceAvailable ?m" by (simp add: m)
  show ?thesis
    using engine_failure_handled_at_call_site [OF p a, of 400] p a
    by (simp add: m startListening_def requestMicrophonePermission_def emit_def)
qed

text \<open>
  Claim C7 as stated fails for \<open>stop\<close>: after a start that succeeded and a stop that
  failed the component is still listening.
\<close>

theorem stop_failure_stays_listening:
  "run 400 android (mount android (Resolves GRANTED) (Resolves True) (Resolves granted))
       [PressVoice (Resolves GRANTED) (Resolves ()), PressVoice (Resolves GRANTED) Rejects]
     = Inr \<lparr>isOpen = False, isListening = True, spokenText = Str [], isVoiceAvailable = True,
            hasCameraPermission = Some True, cameraType = Type_back,
            trace = [PermissionsAndroid_request, Voice_isAvailable,
                     Camera_requestCameraPermissionsAsync, PermissionsAndroid_request,
                     Voice_start ''en-US'', Voice_stop,
                     console_error ''Failed to stop speech recognition'',
                     Alert_alert ''Error''
                       ''Failed to stop speech recognition. Please try again.'']\<rparr>"
  by (simp add: eval_defs)

lemma handle_event_voice_disabled:
  assumes "\<not> isVoiceAvailable s" "\<not> isListening s" "filter is_Voice_start (trace s) = []"
  shows "\<not> isVoiceAvailable (handle_event W OS ev s)
       \<and> \<not> isListening (handle_event W OS ev s)
       \<and> filter is_Voice_start (trace (handle_event W OS ev s)) = []"
  using assms
  by (cases ev)
     (auto simp: handler_defs split: option.splits bool.splits promise.splits)

lemma handle_event_requests:
  "count_list (trace (handle_event W OS ev s)) PermissionsAndroid_request
     \<le> count_list (trace s) PermissionsAndroid_request + (if is_PressVoice ev then 1 else 0)"
  by (cases ev)
     (auto simp: handler_defs split: option.splits bool.splits promise.splits)

lemma dispatch_requests:
  "count_list (trace (state_at (dispatch W OS ev s))) PermissionsAndroid_request
     \<le> count_list (trace s) PermissionsAndroid_request + (if is_PressVoice ev then 1 else 0)"
  using dispatch_cases [of W OS ev s] handle_event_requests [of W OS ev s]
  by (auto simp: toggleMenu_fields)

lemma run_requests:
  "count_list (trace (state_at (run W OS s evs))) PermissionsAndroid_request
     \<le> count_list (trace s) PermissionsAndroid_request + length (filter is_PressVoice evs)"
proof (induction evs arbitrary: s)
  case Nil
  then show ?case by (simp add: state_at_def)
next
  case (Cons ev evs)
  show ?case
  proof (cases "dispatch W OS ev s")
    case (Inl e)
    then show ?thesis using dispatch_requests [of W OS ev s] by (auto simp: state_at_def)
  next
    case (Inr s')
    then show ?thesis
      using dispatch_requests [of W OS ev s] Cons.IH [of s'] by (auto simp: state_at_def)
  qed
qed

lemma mount_denied:
  assumes "OS = android" "request \<noteq> Resolves GRANTED"
  shows "\<not> isVoiceAvailable (mount OS request available camera)"
    "\<not> isListening (mount OS request available camera)"
    "filter is_Voice_start (trace (mount OS request available camera)) = []"
    "count_list (trace (mount OS request available camera)) PermissionsAndroid_request = 1"
  using assms
  by (cases request; cases camera;
      auto simp: mount_def init_def initial_state_def requestMicrophonePermission_def emit_def)+

text \<open>
  Claim C5. When the microphone request made while mounting is answered with a refusal
  (on Android: anything but \<open>GRANTED\<close>, or a failed request), then in every state a
  run of events reaches \<open>Voice.start\<close> has not been called, \<open>isVoiceAvailable\<close>
  and \<open>isListening\<close> are false, and the permission has been requested at most once
  more per press on the voice button: nothing but a press asks again.
\<close>

theorem denied_microphone_never_starts:
  assumes "\<not> fst (requestMicrophonePermission OS request initial_state)"
  shows "filter is_Voice_start
           (trace (state_at (run W OS (mount OS request available camera) evs))) = []
       \<and> \<not> isVoiceAvailable (state_at (run W OS (mount OS request available camera) evs))
       \<and> \<not> isListening (state_at (run W OS (mount OS request available camera) evs))
       \<and> count_list (trace (state_at (run W OS (mount OS request available camera) evs)))
            PermissionsAndroid_request
          \<le> 1 + length (filter is_PressVoice evs)"
proof -
  have denied: "OS = android" "request \<noteq> Resolves GRANTED"
    using assms
    by (auto simp: requestMicrophonePermission_def split: if_splits promise.splits)
  let ?m = "mount OS request available camera"
  let ?P = "\<lambda>s::state. \<not> isVoiceAvailable s \<and> \<not> isListening s \<and> filter is_Voice_start (trace s) = []"
  have m: "?P ?m" using mount_denied(1,2,3) [OF denied] by blast
  have "?P (state_at (run W OS ?m evs))"
  proof (rule run_invariant [where P = ?P, OF m])
    fix ev and s :: state assume "?P s"
    then show "?P (handle_event W OS ev s)" using handle_event_voice_disabled by blast
  next
    fix s :: state assume "?P s"
    then show "?P (toggleMenu W s)" by (simp add: toggleMenu_fields)
  qed
  moreover have "count_list (trace (state_at (run W OS ?m evs))) PermissionsAndroid_request
      \<le> 1 + length (filter is_PressVoice evs)"
    using run_requests [of W OS ?m evs] mount_denied(4) [OF denied] by simp
  ultimately show ?thesis by blast
qed

theorem denied_microphone_never_starts_witness:
  "\<not> fst (requestMicrophonePermission android (Resolves DENIED) initial_state)
   \<and> run 400 android (mount android (Resolves DENIED) (Resolves True) (Resolves granted))
        [PressVoice (Resolves GRANTED) (Resolves ()), SpeechResults [''open menu'']]
     = Inr \<lparr>isOpen = True, isListening = False, spokenText = Str ''open menu'',
            isVoiceAvailable = False, hasCameraPermission = Some True, cameraType = Type_back,
            trace = [PermissionsAndroid_request, Camera_requestCameraPermissionsAsync,
                     PermissionsAndroid_request,
                     Alert_alert ''Voice Recognition Unavailable''
                       ''Voice recognition is not available on this device.'',
                     Animated_timing_start 0 200]\<rparr>
   \<and> filter is_Voice_start (trace (state_at
        (run 400 android (mount android (Resolves DENIED) (Resolves True) (Resolves granted))
           [PressVoice (Resolves GRANTED) (Resolves ()), SpeechResults [''open menu'']]))) = []"
proof -
  have a: "run 400 android (mount android (Resolves DENIED) (Resolves True) (Resolves granted))
        [PressVoice (Resolves GRANTED) (Resolves ()), SpeechResults [''open menu'']]
     = Inr \<lparr>isOpen = True, isListening = False, spokenText = Str ''open menu'',
            isVoiceAvailable = False, hasCameraPermission = Some True, cameraType = Type_back,
            trace = [PermissionsAndroid_request, Camera_requestCameraPermissionsAsync,
                     PermissionsAndroid_request,
                     Alert_alert ''Voice Recognition Unavailable''
                       ''Voice recognition is not available on this device.'',
                     Animated_timing_start 0 200]\<rparr>"
    by (simp add: eval_defs)
  have d: "\<not> fst (requestMicrophonePermission android (Resolves DENIED) initial_state)"
    by (simp add: requestMicrophonePermission_def)
  show ?thesis
    using a d denied_microphone_never_starts [of android "Resolves DENIED" 400 "Resolves True"
        "Resolves granted"
        "[PressVoice (Resolves GRANTED) (Resolves ()), SpeechResults [''open menu'']]"]
    by simp
qed

lemma dispatch_result_idle:
  "isListening (state_at (dispatch W OS (SpeechResults event) s)) = False
   \<and> count_list (trace (state_at (dispatch W OS (SpeechResults event) s))) Voice_stop
       = count_list (trace s) Voice_stop
   \<and> spokenText (state_at (dispatch W OS (SpeechResults event) s)) = index0 event"
  using dispatch_cases [of W OS "SpeechResults event" s]
  by (auto simp: handle_event_def onSpeechResults_def toggleMenu_fields)

text \<open>
  Claim C10, as the code has it. Every speech result leaves \<open>isListening\<close> false,
  without a call of \<open>Voice.stop\<close>, and its first transcript is stored in \<open>spokenText\<close>
  whether or not the component was listening when it arrived: the result listener has no
  guard and the engine is not stopped.
\<close>

theorem result_ends_listening:
  "isListening (state_at (dispatch W OS (SpeechResults event) s)) = False
   \<and> count_list (trace (state_at (dispatch W OS (SpeechResults event) s))) Voice_stop
       = count_list (trace s) Voice_stop
   \<and> spokenText (state_at (dispatch W OS (SpeechResults event) s)) = index0 event
   \<and> onSpeechResults event s = s\<lparr>spokenText := index0 event, isListening := False\<rparr>"
  using dispatch_result_idle [of W OS event s] by (simp add: onSpeechResults_def)

theorem result_ends_listening_witness:
  "run 400 android (mount android (Resolves GRANTED) (Resolves True) (Resolves granted))
       [PressVoice (Resolves GRANTED) (Resolves ()), SpeechResults [''hello'']]
     = Inr \<lparr>isOpen = False, isListening = False, spokenText = Str ''hello'',
            isVoiceAvailable = True, hasCameraPermission = Some True, cameraType = Type_back,
            trace = [PermissionsAndroid_request, Voice_isAvailable,
                     Camera_requestCameraPermissionsAsync, PermissionsAndroid_request,
                     Voice_start ''en-US'']\<rparr>
   \<and> isListening (state_at (dispatch 400 android (SpeechResults [''hello''])
        \<lparr>isOpen = False, isListening = True, spokenText = Str [], isVoiceAvailable = True,
         hasCameraPermission = Some True, cameraType = Type_back,
         trace = [PermissionsAndroid_request, Voice_isAvailable,
                  Camera_requestCameraPermissionsAsync, PermissionsAndroid_request,
                  Voice_start ''en-US'']\<rparr>)) = False"
proof -
  have a: "run 400 android (mount android (Resolves GRANTED) (Resolves True) (Resolves granted))
       [PressVoice (Resolves GRANTED) (Resolves ()), SpeechResults [''hello'']]
     = Inr \<lparr>isOpen = False, isListening = False, spokenText = Str ''hello'',
            isVoiceAvailable = True, hasCameraPermission = Some True, cameraType = Type_back,
            trace = [PermissionsAndroid_request, Voice_isAvailable,
                     Camera_requestCameraPermissionsAsync, PermissionsAndroid_request,
                     Voice_start ''en-US'']\<rparr>"
    by (simp add: eval_defs)
  show ?thesis
    using a result_ends_listening [of 400 android "[''hello'']"
        "\<lparr>isOpen = False, isListening = True, spokenText = Str [], isVoiceAvailable = True,
          hasCameraPermission = Some True, cameraType = Type_back,
          trace = [PermissionsAndroid_request, Voice_isAvailable,
                   Camera_requestCameraPermissionsAsync, PermissionsAndroid_request,
                   Voice_start ''en-US'']\<rparr>"]
    by simp
qed

text \<open>
  Claim C10 as stated fails in its last part: after a single call of \<open>Voice.start\<close> a
  second result, delivered while the component no longer shows a listening session, is
  stored and applied as well (here it opens the drawer).
\<close>

theorem second_result_after_one_start_is_captured:
  "run 400 android (mount android (Resolves GRANTED) (Resolves True) (Resolves granted))
       [PressVoice (Resolves GRANTED) (Resolves ()), SpeechResults [''hello''],
        SpeechResults [''open menu'']]
     = Inr \<lparr>isOpen = True, isListening = False, spokenText = Str ''open menu'',
            isVoiceAvailable = True, hasCameraPermission = Some True, cameraType = Type_back,
            trace = [PermissionsAndroid_request, Voice_isAvailable,
                     Camera_requestCameraPermissionsAsync, PermissionsAndroid_request,
                     Voice_start ''en-US'', Animated_timing_start 0 200]\<rparr>"
  by (simp add: eval_defs)

subsection \<open>Unmounting\<close>

lemma handle_event_no_destroy:
  "count_list (trace (handle_event W OS ev s)) Voice_destroy = count_list (trace s) Voice_destroy"
  by (cases ev)
     (auto simp: handler_defs split: option.splits bool.splits promise.splits)

lemma mount_no_destroy:
  "count_list (trace (mount OS request available camera)) Voice_destroy = 0"
  by (cases request; cases available; cases camera)
     (auto simp: mount_def init_def initial_state_def requestMicrophonePermission_def
        checkVoiceAvailability_def emit_def)

lemma run_no_destroy:
  "count_list (trace (state_at (run W OS (mount OS request available camera) evs)))
     Voice_destroy = 0"
  by (rule run_invariant
        [where P = "\<lambda>s::state. count_list (trace s) Voice_destroy = 0", OF mount_no_destroy])
     (simp_all add: handle_event_no_destroy toggleMenu_fields)

text \<open>
  Claim C4, as the code has it. Whatever happened while mounted (a refused or failed
  permission request, an exception of the intent effect), the clean-up adds
  \<open>Voice.destroy\<close> to a trace that had none, followed by
  \<open>Voice.removeAllListeners\<close> when \<open>destroy\<close> resolves and by an unhandled
  rejection when it rejects; these two actions are all it does.
\<close>

theorem unmount_destroys_voice_once:
  "trace (unmount destroyed (run W OS (mount OS request available camera) evs))
     = trace (state_at (run W OS (mount OS request available camera) evs))
       @ [Voice_destroy,
          case destroyed of Resolves u \<Rightarrow> Voice_removeAllListeners | Rejects \<Rightarrow> Unhandled_rejection]
   \<and> count_list (trace (unmount destroyed (run W OS (mount OS request available camera) evs)))
        Voice_destroy = 1"
  using run_no_destroy [of W OS request available camera evs]
  by (cases destroyed) (simp_all add: unmount_def cleanup_def emit_def)

theorem unmount_destroys_voice_once_witness:
  "trace (unmount Rejects (run 400 android
       (mount android (Resolves GRANTED) (Resolves True) Rejects) [SpeechResults []]))
     = [PermissionsAndroid_request, Voice_isAvailable, Camera_requestCameraPermissionsAsync,
        Unhandled_rejection, Voice_destroy, Unhandled_rejection]"
proof -
  have a: "trace (state_at (run 400 android
       (mount android (Resolves GRANTED) (Resolves True) Rejects) [SpeechResults []]))
     = [PermissionsAndroid_request, Voice_isAvailable, Camera_requestCameraPermissionsAsync,
        Unhandled_rejection]"
    by (simp add: eval_defs)
  show ?thesis
    using a unmount_destroys_voice_once [of Rejects 400 android "Resolves GRANTED"
        "Resolves True" Rejects "[SpeechResults []]"]
    by simp
qed

text \<open>
  Claim C4 as stated fails for the camera: with the \<open>Camera\<close> element mounted, the
  clean-up makes the two voice calls and none that concerns the camera.
\<close>

theorem unmount_makes_no_camera_call:
  "camera_mounted
     (render (mount android (Resolves GRANTED) (Resolves True) (Resolves granted)))
   \<and> trace (unmount (Resolves ())
        (run 400 android (mount android (Resolves GRANTED) (Resolves True) (Resolves granted))
           [PressCameraFlip]))
     = [PermissionsAndroid_request, Voice_isAvailable, Camera_requestCameraPermissionsAsync,
        Voice_destroy, Voice_removeAllListeners]"
  by (simp add: eval_defs)

subsection \<open>Camera facing\<close>

text \<open>
  Claim C8. For either facing, one \<open>toggleCameraType\<close> gives the other facing and two
  give the facing back; nothing else of the state changes.
\<close>

theorem toggleCameraType_involution:
  "toggleCameraType (toggleCameraType s) = s
   \<and> cameraType (toggleCameraType s) \<noteq> cameraType s
   \<and> cameraType (toggleCameraType (s\<lparr>cameraType := Type_back\<rparr>)) = Type_front
   \<and> cameraType (toggleCameraType (s\<lparr>cameraType := Type_front\<rparr>)) = Type_back"
  by (cases "cameraType s") (simp_all add: toggleCameraType_def)

end
